theory Spec2Isabelle
  imports Main "HOL-Library.Char_ord" "HOL-Library.List_Lexorder" "HOL-Library.Multiset"
begin

section \<open>Instants and the calendar\<close>

text \<open>
  The program computes with JavaScript \<^verbatim>\<open>Date\<close> objects through the date-fns
  functions \<^verbatim>\<open>addDays\<close>, \<^verbatim>\<open>addMonths\<close>, \<^verbatim>\<open>startOfWeek\<close>, \<^verbatim>\<open>endOfWeek\<close>,
  \<^verbatim>\<open>startOfMonth\<close>, \<^verbatim>\<open>endOfMonth\<close>, \<^verbatim>\<open>isBefore\<close> and \<^verbatim>\<open>isAfter\<close>. All of them
  read and write the local-time fields of a date. An instant is modelled by its local
  time value: the number of milliseconds since 1970-01-01T00:00 local time.

  A \<^verbatim>\<open>Date\<close> holds such a time value or is the Invalid Date (time value NaN): every
  method that writes a date clips its result to the range of \<^verbatim>\<open>Date\<close> (TimeClip), and
  every comparison with the Invalid Date is false.

  Modelling assumptions, which every theorem below inherits:
  \<^item> the local time zone has a fixed offset from UTC (the application runs in
    Asia/Singapore, UTC+8, which has no daylight saving), so local time values order
    and subtract like the underlying UTC time values;
  \<^item> the numbers of a recurrence payload (\<^verbatim>\<open>interval\<close>, \<^verbatim>\<open>weekdays\<close>, \<^verbatim>\<open>day\<close>) are
    integers;
  \<^item> \<^verbatim>\<open>dueDate\<close> holds the date that \<^verbatim>\<open>parseISO\<close> yields for the stored string.

  The calendar functions follow the definitions of the ECMAScript specification
  (Day, TimeWithinDay, DaysInYear, DayFromYear, YearFromTime, MonthFromTime,
  DateFromTime, WeekDay, MakeTime, MakeDay, MakeDate), on day numbers.
\<close>

type_synonym instant = int

definition msPerDay :: int where
  "msPerDay = 86400000"

definition Day :: "instant \<Rightarrow> int" where
  "Day t = t div msPerDay"

definition TimeWithinDay :: "instant \<Rightarrow> int" where
  "TimeWithinDay t = t mod msPerDay"

definition daysInYear :: "int \<Rightarrow> int" where
  "daysInYear y =
     (if y mod 4 \<noteq> 0 then 365
      else if y mod 100 \<noteq> 0 then 366
      else if y mod 400 \<noteq> 0 then 365
      else 366)"

definition dayFromYear :: "int \<Rightarrow> int" where
  "dayFromYear y =
     365 * (y - 1970) + (y - 1969) div 4 - (y - 1901) div 100 + (y - 1601) div 400"

definition inLeapYear :: "int \<Rightarrow> int" where
  "inLeapYear y = (if daysInYear y = 366 then 1 else 0)"

text \<open>The day within the year on which month \<open>m\<close> (0 = January) starts; \<open>l\<close> is 1 in a leap year.\<close>

definition monthStart :: "int \<Rightarrow> int \<Rightarrow> int" where
  "monthStart l m =
     (if m = 0 then 0
      else if m = 1 then 31
      else if m = 2 then 59 + l
      else if m = 3 then 90 + l
      else if m = 4 then 120 + l
      else if m = 5 then 151 + l
      else if m = 6 then 181 + l
      else if m = 7 then 212 + l
      else if m = 8 then 243 + l
      else if m = 9 then 273 + l
      else if m = 10 then 304 + l
      else 334 + l)"

lemma div_step:
  fixes a c :: int
  assumes c: "0 < c"
  shows "(a + 1) div c = a div c + (if (a + 1) mod c = 0 then 1 else 0)"
proof (cases "a mod c + 1 = c")
  case True
  have "a + 1 = c * (a div c + 1) + 0"
    using True by (simp add: algebra_simps) (metis add.commute mult_div_mod_eq add.assoc)
  then have "(a + 1) div c = a div c + 1" "(a + 1) mod c = 0"
    using c by (metis add.right_neutral nonzero_mult_div_cancel_left less_irrefl,
                metis add.right_neutral mod_mult_self1_is_0)
  then show ?thesis by simp
next
  case False
  have r: "0 \<le> a mod c" "a mod c < c" using c by simp_all
  have e: "a + 1 = c * (a div c) + (a mod c + 1)" by simp
  have b: "0 \<le> a mod c + 1" "a mod c + 1 < c" using r False by linarith+
  have "(a + 1) div c = a div c" using int_div_pos_eq[OF e b] .
  moreover have "(a + 1) mod c = a mod c + 1" using int_mod_pos_eq[OF e b] .
  ultimately show ?thesis using r by simp
qed

lemma mod_100_4: "y mod 100 = 0 \<Longrightarrow> y mod 4 = 0" for y :: int
  by presburger

lemma mod_400_100: "y mod 400 = 0 \<Longrightarrow> y mod 100 = 0" for y :: int
proof -
  assume "y mod 400 = 0"
  then have "400 dvd y" by (simp add: mod_eq_0_iff_dvd)
  moreover have "(100::int) dvd 400" by simp
  ultimately have "100 dvd y" using dvd_trans by blast
  then show ?thesis by (simp add: mod_eq_0_iff_dvd)
qed

lemma mod_diff_mult:
  fixes y k c :: int
  assumes "k mod c = 0"
  shows "(y - k) mod c = y mod c"
proof -
  have "(y - k) mod c = (y - k mod c) mod c" by (rule mod_diff_right_eq[symmetric])
  then show ?thesis using assms by simp
qed

lemma dayFromYear_Suc: "dayFromYear (y + 1) = dayFromYear y + daysInYear y"
proof -
  define A where "A = (y - 1969) div 4"
  define B where "B = (y - 1901) div 100"
  define C where "C = (y - 1601) div 400"
  define a where "a = (if y mod 4 = 0 then 1 else 0 :: int)"
  define b where "b = (if y mod 100 = 0 then 1 else 0 :: int)"
  define c where "c = (if y mod 400 = 0 then 1 else 0 :: int)"
  have a: "(y - 1968) div 4 = A + a"
    using div_step[of 4 "y - 1969"] mod_diff_mult[of 1968 4 y] by (simp add: A_def a_def)
  have b: "(y - 1900) div 100 = B + b"
    using div_step[of 100 "y - 1901"] mod_diff_mult[of 1900 100 y] by (simp add: B_def b_def)
  have c: "(y - 1600) div 400 = C + c"
    using div_step[of 400 "y - 1601"] mod_diff_mult[of 1600 400 y] by (simp add: C_def c_def)
  have l: "dayFromYear (y + 1) = 365 * (y - 1969) + (A + a) - (B + b) + (C + c)"
    by (simp add: dayFromYear_def a b c)
  have r: "dayFromYear y = 365 * (y - 1970) + A - B + C"
    by (simp add: dayFromYear_def A_def B_def C_def)
  have d: "daysInYear y = 365 + a - b + c"
    using mod_100_4[of y] mod_400_100[of y]
    by (cases "y mod 4 = 0"; cases "y mod 100 = 0"; cases "y mod 400 = 0")
       (simp_all add: daysInYear_def a_def b_def c_def)
  show ?thesis unfolding l r d by (simp add: algebra_simps)
qed

lemma daysInYear_bounds: "365 \<le> daysInYear y" "daysInYear y \<le> 366"
  by (simp_all add: daysInYear_def)

lemma dayFromYear_less_Suc: "dayFromYear y < dayFromYear (y + 1)"
  using daysInYear_bounds(1)[of y] by (simp add: dayFromYear_Suc)

text \<open>
  YearFromTime is "the largest year whose first day is not after the day": the model
  searches upwards from a year that is not after it (\<open>yearGuess\<close>).
\<close>

function yearUp :: "int \<Rightarrow> int \<Rightarrow> int" where
  "yearUp y n = (if dayFromYear (y + 1) \<le> n then yearUp (y + 1) n else y)"
  by pat_completeness auto
termination
proof (relation "measure (\<lambda>(y, n). nat (n + 1 - dayFromYear (y + 1)))")
  show "wf (measure (\<lambda>(y, n). nat (n + 1 - dayFromYear (y + 1))))" by simp
next
  fix y n :: int
  assume "dayFromYear (y + 1) \<le> n"
  then show "((y + 1, n), (y, n)) \<in> measure (\<lambda>(y, n). nat (n + 1 - dayFromYear (y + 1)))"
    using dayFromYear_less_Suc[of "y + 1"] by simp
qed

declare yearUp.simps [simp del]

definition yearGuess :: "int \<Rightarrow> int" where
  "yearGuess n = 1970 + (if 0 \<le> n then n div 366 else n div 365)"

definition YearFromDay :: "int \<Rightarrow> int" where
  "YearFromDay n = yearUp (yearGuess n) n"

definition DayWithinYear :: "int \<Rightarrow> int" where
  "DayWithinYear n = n - dayFromYear (YearFromDay n)"

text \<open>MonthFromTime: the month that holds day \<open>d\<close> of a year; \<open>l\<close> is 1 in a leap year.\<close>

definition monthOf :: "int \<Rightarrow> int \<Rightarrow> int" where
  "monthOf l d =
     (if d < 31 then 0
      else if d < 59 + l then 1
      else if d < 90 + l then 2
      else if d < 120 + l then 3
      else if d < 151 + l then 4
      else if d < 181 + l then 5
      else if d < 212 + l then 6
      else if d < 243 + l then 7
      else if d < 273 + l then 8
      else if d < 304 + l then 9
      else if d < 334 + l then 10
      else 11)"

definition MonthFromDay :: "int \<Rightarrow> int" where
  "MonthFromDay n = monthOf (inLeapYear (YearFromDay n)) (DayWithinYear n)"

definition DateFromDay :: "int \<Rightarrow> int" where
  "DateFromDay n =
     DayWithinYear n - monthStart (inLeapYear (YearFromDay n)) (MonthFromDay n) + 1"

definition WeekDay :: "int \<Rightarrow> int" where
  "WeekDay n = (n + 4) mod 7"

definition MakeTime :: "int \<Rightarrow> int \<Rightarrow> int \<Rightarrow> int \<Rightarrow> int" where
  "MakeTime h m s ms = h * 3600000 + m * 60000 + s * 1000 + ms"

definition MakeDay :: "int \<Rightarrow> int \<Rightarrow> int \<Rightarrow> int" where
  "MakeDay y m d =
     (let ym = y + m div 12; mn = m mod 12 in
      dayFromYear ym + monthStart (inLeapYear ym) mn + d - 1)"

definition MakeDate :: "int \<Rightarrow> int \<Rightarrow> instant" where
  "MakeDate day time = day * msPerDay + time"

text \<open>
  For the proofs, months are also counted from year 0: month \<open>m\<close> of year \<open>y\<close> has
  index \<open>12 * y + m\<close>, and \<open>firstDay i\<close> is the day number of the first day of the month
  with index \<open>i\<close>.
\<close>

definition monthIndex :: "int \<Rightarrow> int" where
  "monthIndex n = 12 * YearFromDay n + MonthFromDay n"

definition firstDay :: "int \<Rightarrow> int" where
  "firstDay i = dayFromYear (i div 12) + monthStart (inLeapYear (i div 12)) (i mod 12)"

subsection \<open>The methods of \<^verbatim>\<open>Date\<close>, on time values\<close>

text \<open>
  The getters read a valid date. A setter is given by the time value it computes; the
  date it leaves behind is that time value after TimeClip (\<open>onDate\<close> below).
\<close>

definition getFullYear :: "instant \<Rightarrow> int" where
  "getFullYear t = YearFromDay (Day t)"

definition getMonth :: "instant \<Rightarrow> int" where
  "getMonth t = MonthFromDay (Day t)"

definition getDate :: "instant \<Rightarrow> int" where
  "getDate t = DateFromDay (Day t)"

definition getDay :: "instant \<Rightarrow> int" where
  "getDay t = WeekDay (Day t)"

definition getHours :: "instant \<Rightarrow> int" where
  "getHours t = TimeWithinDay t div 3600000"

definition getMinutes :: "instant \<Rightarrow> int" where
  "getMinutes t = (TimeWithinDay t div 60000) mod 60"

definition setDate :: "instant \<Rightarrow> int \<Rightarrow> instant" where
  "setDate t d = MakeDate (MakeDay (getFullYear t) (getMonth t) d) (TimeWithinDay t)"

definition setMonth :: "instant \<Rightarrow> int \<Rightarrow> int \<Rightarrow> instant" where
  "setMonth t m d = MakeDate (MakeDay (getFullYear t) m d) (TimeWithinDay t)"

definition setFullYear :: "instant \<Rightarrow> int \<Rightarrow> int \<Rightarrow> int \<Rightarrow> instant" where
  "setFullYear t y m d = MakeDate (MakeDay y m d) (TimeWithinDay t)"

definition setHours :: "instant \<Rightarrow> int \<Rightarrow> int \<Rightarrow> int \<Rightarrow> int \<Rightarrow> instant" where
  "setHours t h m s ms = MakeDate (Day t) (MakeTime h m s ms)"

text \<open>
  \<^verbatim>\<open>new Date(year, month, day, hours, minutes)\<close>: seconds and milliseconds are 0, and a
  year from 0 to 99 stands for 1900 + year. Again the time value before TimeClip.
\<close>

definition newDate :: "int \<Rightarrow> int \<Rightarrow> int \<Rightarrow> int \<Rightarrow> int \<Rightarrow> instant" where
  "newDate y m d h mi =
     MakeDate (MakeDay (if 0 \<le> y \<and> y \<le> 99 then 1900 + y else y) m d) (MakeTime h mi 0 0)"

text \<open>
  \<open>localTime y mo d h mi s ms\<close> is the instant of the local date and time
  \<open>y-mo-d h:mi:s.ms\<close> (months counted from 1, as in an ISO string): the value of
  \<^verbatim>\<open>parseISO\<close> on the string that spells it. It is used to write concrete dates.
\<close>

definition localTime :: "int \<Rightarrow> int \<Rightarrow> int \<Rightarrow> int \<Rightarrow> int \<Rightarrow> int \<Rightarrow> int \<Rightarrow> instant" where
  "localTime y mo d h mi s ms = MakeDate (MakeDay y (mo - 1) d) (MakeTime h mi s ms)"

subsection \<open>Dates\<close>

text \<open>
  A date is \<open>Some\<close> time value inside the range of \<^verbatim>\<open>Date\<close>, or \<open>None\<close>, the Invalid Date.
  The range is 8.64e15 milliseconds on either side of 1970-01-01T00:00 UTC, which in
  local time values is shifted by the offset of the time zone.
\<close>

type_synonym Date = "instant option"

definition maxTimeValue :: int where
  "maxTimeValue = 8640000000000000"

definition LocalTZA :: int where
  "LocalTZA = 28800000"

definition timeClip :: "instant \<Rightarrow> Date" where
  "timeClip t = (if \<bar>t - LocalTZA\<bar> \<le> maxTimeValue then Some t else None)"

text \<open>
  A method or function that rewrites a date, given by the time value \<open>f t\<close> it computes
  from the time value \<open>t\<close> of a valid date: the Invalid Date stays invalid, and the
  result is clipped.
\<close>

definition onDate :: "(instant \<Rightarrow> instant) \<Rightarrow> Date \<Rightarrow> Date" where
  "onDate f d = (case d of None \<Rightarrow> None | Some t \<Rightarrow> timeClip (f t))"

text \<open>The date that \<^verbatim>\<open>parseISO\<close> yields for the string spelling a local date and time.\<close>

definition localDate :: "int \<Rightarrow> int \<Rightarrow> int \<Rightarrow> int \<Rightarrow> int \<Rightarrow> int \<Rightarrow> int \<Rightarrow> Date" where
  "localDate y mo d h mi s ms = timeClip (localTime y mo d h mi s ms)"

subsection \<open>The functions of date-fns\<close>

text \<open>
  \<^verbatim>\<open>isBefore\<close> and \<^verbatim>\<open>isAfter\<close> compare time values with \<^verbatim>\<open><\<close> and \<^verbatim>\<open>>\<close>, which are false
  when either side is NaN.
\<close>

definition isBefore :: "Date \<Rightarrow> Date \<Rightarrow> bool" where
  "isBefore a b = (case a of None \<Rightarrow> False | Some x \<Rightarrow> (case b of None \<Rightarrow> False | Some y \<Rightarrow> x < y))"

definition isAfter :: "Date \<Rightarrow> Date \<Rightarrow> bool" where
  "isAfter a b = (case a of None \<Rightarrow> False | Some x \<Rightarrow> (case b of None \<Rightarrow> False | Some y \<Rightarrow> x > y))"

text \<open>\<^verbatim>\<open>addDays\<close> returns a copy when the amount is 0 and calls \<^verbatim>\<open>setDate\<close> otherwise.\<close>

definition addDays :: "Date \<Rightarrow> int \<Rightarrow> Date" where
  "addDays d amount =
     (if amount = 0 then d
      else case d of None \<Rightarrow> None
      | Some t \<Rightarrow> timeClip (setDate t (getDate t + amount)))"

text \<open>
  \<^verbatim>\<open>addMonths\<close> first moves a copy to the last day of the desired month
  (\<^verbatim>\<open>setMonth(month + amount + 1, 0)\<close>). When that date is invalid, so is the result
  (\<^verbatim>\<open>setFullYear\<close> with NaN arguments).
\<close>

definition addMonths :: "Date \<Rightarrow> int \<Rightarrow> Date" where
  "addMonths d amount =
     (if amount = 0 then d
      else case d of
        None \<Rightarrow> None
      | Some t \<Rightarrow>
          let dayOfMonth = getDate t in
          (case timeClip (setMonth t (getMonth t + amount + 1) 0) of
             None \<Rightarrow> None
           | Some endOfDesiredMonth \<Rightarrow>
               let daysInMonth = getDate endOfDesiredMonth in
               if dayOfMonth \<ge> daysInMonth then Some endOfDesiredMonth
               else timeClip (setFullYear t (getFullYear endOfDesiredMonth)
                                (getMonth endOfDesiredMonth) dayOfMonth)))"

text \<open>
  The week and month functions are given by the time value of the date they return,
  for a valid date (\<open>onDate startOfWeek\<close> is the function on dates). Both week
  functions are called with \<^verbatim>\<open>weekStartsOn: 0\<close>.
\<close>

definition startOfWeek :: "instant \<Rightarrow> instant" where
  "startOfWeek t =
     (let day = getDay t;
          diff = (if day < 0 then 7 else 0) + day - 0
      in setHours (setDate t (getDate t - diff)) 0 0 0 0)"




section \<open>\<^verbatim>\<open>Array.prototype.sort\<close> without a comparator\<close>

text \<open>
  Without a comparator, \<^verbatim>\<open>sort\<close> orders the elements by their string forms, compared
  by code units, and it sorts the array in place. \<open>toString\<close> is the decimal form of
  an integer (the form JavaScript gives every integer below \<open>10^21\<close>).
\<close>

fun digits :: "nat \<Rightarrow> string" where
  "digits n = (if n < 10 then [char_of (48 + n)] else digits (n div 10) @ [char_of (48 + n mod 10)])"

declare digits.simps [simp del]

definition toString :: "int \<Rightarrow> string" where
  "toString i = (if i < 0 then CHR ''-'' # digits (nat (- i)) else digits (nat i))"

definition js_sort :: "int list \<Rightarrow> int list" where
  "js_sort xs = sort_key toString xs"

section \<open>The data model (types.d.ts)\<close>

datatype Priority = low | medium | high

datatype Status = active | paused | completed

datatype Recurrence =
    RNone
  | Daily (interval: int)
  | Weekly (interval: int) (weekdays: "int list")
  | Monthly (interval: int) (day: int)

record Task =
  taskId :: string
  name :: string
  description :: "string option"
  priority :: Priority
  dueDate :: Date
  createdAt :: string
  status :: Status
  recurrence :: Recurrence
  categories :: "string list"
  notifiedAt :: "string option"

record Occurrence =
  date :: Date
  baseId :: string

section \<open>expandRecurrence (utils.ts)\<close>

text \<open>
  A loop of the source is a recursive function into \<open>option\<close>: \<open>None\<close> is a loop that
  never exits. The cursors of the loops are dates, so a loop may go on with the
  Invalid Date as its cursor. The weekly loop sorts \<^verbatim>\<open>task.recurrence.weekdays\<close> in
  place in every round, so the task is part of the state of that loop and of the result
  of \<open>expandRecurrence\<close>.
\<close>

partial_function (option) daily_skip :: "Date \<Rightarrow> Date \<Rightarrow> int \<Rightarrow> Date option" where
  "daily_skip d start iv =
     (if isBefore d start then daily_skip (addDays d iv) start iv else Some d)"

partial_function (option) daily_emit ::
  "Date \<Rightarrow> Date \<Rightarrow> int \<Rightarrow> string \<Rightarrow> Occurrence list \<Rightarrow> Occurrence list option" where
  "daily_emit d en iv tid results =
     (if \<not> isAfter d en
      then daily_emit (addDays d iv) en iv tid (results @ [\<lparr>date = d, baseId = tid\<rparr>])
      else Some results)"

definition weekdays_of :: "Recurrence \<Rightarrow> int list" where
  "weekdays_of r = (case r of Weekly iv wds \<Rightarrow> wds | _ \<Rightarrow> [])"

definition week_interval_of :: "Recurrence \<Rightarrow> int" where
  "week_interval_of r = (case r of Weekly iv wds \<Rightarrow> iv | _ \<Rightarrow> 1)"

definition sort_weekdays :: "Task \<Rightarrow> Task" where
  "sort_weekdays task =
     (case recurrence task of
        Weekly iv wds \<Rightarrow> task\<lparr>recurrence := Weekly iv (js_sort wds)\<rparr>
      | _ \<Rightarrow> task)"

fun weekly_week ::
  "Date \<Rightarrow> Date \<Rightarrow> Date \<Rightarrow> string \<Rightarrow> int list \<Rightarrow> Occurrence list \<Rightarrow> Occurrence list" where
  "weekly_week w start en tid [] results = results"
| "weekly_week w start en tid (wd # wds) results =
     (let occ = addDays w wd in
      weekly_week w start en tid wds
        (if \<not> isBefore occ start \<and> \<not> isAfter occ en
         then results @ [\<lparr>date = occ, baseId = tid\<rparr>] else results))"

partial_function (option) weekly_loop ::
  "Task \<Rightarrow> Date \<Rightarrow> Date \<Rightarrow> Date \<Rightarrow> Occurrence list \<Rightarrow> (Occurrence list \<times> Task) option" where
  "weekly_loop task w start en results =
     (if \<not> isAfter w en
      then weekly_loop (sort_weekdays task)
             (addDays w (7 * week_interval_of (recurrence (sort_weekdays task)))) start en
             (weekly_week w start en (taskId task)
                (weekdays_of (recurrence (sort_weekdays task))) results)
      else Some (results, task))"

partial_function (option) monthly_skip :: "Date \<Rightarrow> Date \<Rightarrow> int \<Rightarrow> Date option" where
  "monthly_skip m start iv =
     (if isBefore m start then monthly_skip (addMonths m iv) start iv else Some m)"

text \<open>
  The occurrence of the month of cursor \<open>m\<close>. The getters of an invalid date give NaN, and
  \<^verbatim>\<open>new Date\<close> with a NaN argument is the Invalid Date.
\<close>

definition monthly_occ :: "Date \<Rightarrow> int \<Rightarrow> Date \<Rightarrow> Date" where
  "monthly_occ m dy baseDue =
     (case m of
        None \<Rightarrow> None
      | Some mt \<Rightarrow>
          (case baseDue of
             None \<Rightarrow> None
           | Some bt \<Rightarrow>
               timeClip (newDate (getFullYear mt) (getMonth mt) dy (getHours bt) (getMinutes bt))))"

partial_function (option) monthly_emit ::
  "Date \<Rightarrow> Date \<Rightarrow> Date \<Rightarrow> int \<Rightarrow> int \<Rightarrow> Date \<Rightarrow> string \<Rightarrow> Occurrence list
     \<Rightarrow> Occurrence list option" where
  "monthly_emit m start en iv dy baseDue tid results =
     (if \<not> isAfter m en
      then monthly_emit (addMonths m iv) start en iv dy baseDue tid
             (if \<not> isBefore (monthly_occ m dy baseDue) start
                 \<and> \<not> isAfter (monthly_occ m dy baseDue) en
              then results @ [\<lparr>date = monthly_occ m dy baseDue, baseId = tid\<rparr>]
              else results)
      else Some results)"

declare daily_skip.simps [code]
declare daily_emit.simps [code]
declare weekly_loop.simps [code]
declare monthly_skip.simps [code]
declare monthly_emit.simps [code]

text \<open>\<^verbatim>\<open>new Date(Math.max(+baseDue, +start))\<close>: the maximum is NaN when either date is invalid.\<close>

definition maxDate :: "Date \<Rightarrow> Date \<Rightarrow> Date" where
  "maxDate a b = (case a of None \<Rightarrow> None | Some x \<Rightarrow> (case b of None \<Rightarrow> None | Some y \<Rightarrow> Some (max x y)))"

definition expandRecurrence ::
  "Task \<Rightarrow> Date \<Rightarrow> Date \<Rightarrow> (Occurrence list \<times> Task) option" where
  "expandRecurrence task start en =
     (let baseDue = dueDate task in
      case recurrence task of
        RNone \<Rightarrow>
          Some (if \<not> isBefore baseDue start \<and> \<not> isAfter baseDue en
                then [\<lparr>date = baseDue, baseId = taskId task\<rparr>] else [], task)
      | Daily iv \<Rightarrow>
          (case daily_skip baseDue start iv of
             None \<Rightarrow> None
           | Some d \<Rightarrow>
               (case daily_emit d en iv (taskId task) [] of
                  None \<Rightarrow> None
                | Some results \<Rightarrow> Some (results, task)))
      | Weekly iv wds \<Rightarrow>
          weekly_loop task (onDate startOfWeek (maxDate baseDue start)) start en []
      | Monthly iv dy \<Rightarrow>
          (case monthly_skip baseDue start iv of
             None \<Rightarrow> None
           | Some m \<Rightarrow>
               (case monthly_emit m start en iv dy baseDue (taskId task) [] of
                  None \<Rightarrow> None
                | Some results \<Rightarrow> Some (results, task))))"

section \<open>monthGridRange (utils.ts)\<close>

text \<open>The interval of the month grid, by the time values of its two dates.\<close>

record DateInterval =
  start :: instant
  "end" :: instant


section \<open>Well-formed recurrences and sample tasks\<close>

text \<open>
  The task editor (\<^verbatim>\<open>TaskDialog.submit\<close>) stores only recurrences whose interval is at
  least 1 and whose weekdays are the toggles 0 to 6. (It also clamps the day of the
  month to 1..28; no property below needs it.)
\<close>

definition wellFormed :: "Recurrence \<Rightarrow> bool" where
  "wellFormed r =
     (case r of
        RNone \<Rightarrow> True
      | Daily iv \<Rightarrow> 1 \<le> iv
      | Weekly iv wds \<Rightarrow> 1 \<le> iv \<and> list_all (\<lambda>wd. 0 \<le> wd \<and> wd \<le> 6) wds
      | Monthly iv dy \<Rightarrow> 1 \<le> iv)"

text \<open>A task with fixed values in the fields that \<open>expandRecurrence\<close> does not read.\<close>

definition sampleTask :: "Date \<Rightarrow> Recurrence \<Rightarrow> Task" where
  "sampleTask d r =
     \<lparr>taskId = ''k3x9'', name = ''Sample'', description = None, priority = medium,
      dueDate = d, createdAt = ''2024-01-01T00:00:00.000Z'', status = active,
      recurrence = r, categories = [], notifiedAt = None\<rparr>"

section \<open>Repeated occurrences\<close>

text \<open>
  \<open>repeatEach n xs\<close> is the list \<open>xs\<close> with every element \<open>x\<close> repeated, in place, \<open>n x\<close>
  times. \<open>timesListed wds occ\<close> is the number of entries of the weekdays list \<open>wds\<close> that
  are the day of the week of the occurrence \<open>occ\<close>; the Invalid Date has no day of the
  week.
\<close>

definition repeatEach :: "('a \<Rightarrow> nat) \<Rightarrow> 'a list \<Rightarrow> 'a list" where
  "repeatEach n xs = concat (map (\<lambda>x. replicate (n x) x) xs)"

definition timesListed :: "int list \<Rightarrow> Occurrence \<Rightarrow> nat" where
  "timesListed wds occ = (case date occ of None \<Rightarrow> 0 | Some t \<Rightarrow> count_list wds (getDay t))"

section \<open>Properties of the calendar\<close>

subsection \<open>Years\<close>

lemma dayFromYear_upper: "0 \<le> k \<Longrightarrow> dayFromYear (1970 + k) \<le> 366 * k"
proof (induction k rule: int_ge_induct)
  case base
  show ?case by (simp add: dayFromYear_def)
next
  case (step i)
  have "dayFromYear (1970 + (i + 1)) = dayFromYear (1970 + i) + daysInYear (1970 + i)"
    using dayFromYear_Suc[of "1970 + i"] by (simp add: add.assoc)
  then show ?case using step daysInYear_bounds(2)[of "1970 + i"] by simp
qed

lemma dayFromYear_lower: "k \<le> 0 \<Longrightarrow> dayFromYear (1970 + k) \<le> 365 * k"
proof (induction k rule: int_le_induct)
  case base
  show ?case by (simp add: dayFromYear_def)
next
  case (step i)
  have "dayFromYear (1970 + i) = dayFromYear (1970 + (i - 1)) + daysInYear (1970 + (i - 1))"
    using dayFromYear_Suc[of "1970 + (i - 1)"] by (simp add: add.assoc)
  then show ?case using step daysInYear_bounds(1)[of "1970 + (i - 1)"] by simp
qed

lemma mult_div_le_int: "0 < c \<Longrightarrow> c * (n div c) \<le> n" for n c :: int
  by (metis mult_div_mod_eq pos_mod_sign le_add_same_cancel1)

lemma yearGuess_le: "dayFromYear (yearGuess n) \<le> n"
proof (cases "0 \<le> n")
  case True
  then have "0 \<le> n div 366" by (simp add: pos_imp_zdiv_nonneg_iff)
  from dayFromYear_upper[OF this] mult_div_le_int[of 366 n] True
  show ?thesis by (simp add: yearGuess_def)
next
  case False
  then have "n div 365 \<le> 0" using div_neg_pos_less0[of n 365] by simp
  from dayFromYear_lower[OF this] mult_div_le_int[of 365 n] False
  show ?thesis by (simp add: yearGuess_def)
qed

lemma yearUp_bracket:
  "dayFromYear y \<le> n \<Longrightarrow> dayFromYear (yearUp y n) \<le> n \<and> n < dayFromYear (yearUp y n + 1)"
proof (induction y n rule: yearUp.induct)
  case (1 y n)
  show ?case
  proof (cases "dayFromYear (y + 1) \<le> n")
    case True
    then show ?thesis using "1.IH" by (subst (1 2) yearUp.simps) simp
  next
    case False
    then show ?thesis using "1.prems" by (subst (1 2) yearUp.simps) simp
  qed
qed

lemma YearFromDay_bracket:
  "dayFromYear (YearFromDay n) \<le> n" "n < dayFromYear (YearFromDay n + 1)"
  using yearUp_bracket[OF yearGuess_le[of n]] by (simp_all add: YearFromDay_def)

lemma dayFromYear_mono: "y \<le> y' \<Longrightarrow> dayFromYear y \<le> dayFromYear y'"
proof (induction y' rule: int_ge_induct)
  case base
  show ?case by simp
next
  case (step i)
  then show ?case using dayFromYear_less_Suc[of i] by simp
qed

lemma YearFromDay_unique:
  assumes "dayFromYear y \<le> n" "n < dayFromYear (y + 1)"
  shows "YearFromDay n = y"
proof (rule ccontr)
  assume ne: "YearFromDay n \<noteq> y"
  show False
  proof (cases "YearFromDay n < y")
    case True
    then have "dayFromYear (YearFromDay n + 1) \<le> dayFromYear y"
      by (intro dayFromYear_mono) simp
    then show False using YearFromDay_bracket(2)[of n] assms(1) by simp
  next
    case False
    with ne have "dayFromYear (y + 1) \<le> dayFromYear (YearFromDay n)"
      by (intro dayFromYear_mono) simp
    then show False using YearFromDay_bracket(1)[of n] assms(2) by simp
  qed
qed

lemma inLeapYear_cases: "inLeapYear y = 0 \<or> inLeapYear y = 1"
  by (simp add: inLeapYear_def)

lemma daysInYear_leap: "daysInYear y = 365 + inLeapYear y"
  by (simp add: inLeapYear_def daysInYear_def)

lemma DayWithinYear_bounds:
  "0 \<le> DayWithinYear n" "DayWithinYear n < 365 + inLeapYear (YearFromDay n)"
  using YearFromDay_bracket[of n] dayFromYear_Suc[of "YearFromDay n"]
  by (simp_all add: DayWithinYear_def daysInYear_leap)

lemma MonthFromDay_range: "0 \<le> MonthFromDay n" "MonthFromDay n \<le> 11"
  by (simp_all add: MonthFromDay_def monthOf_def)

subsection \<open>Months\<close>

lemma monthIndex_div_mod:
  "monthIndex n div 12 = YearFromDay n" "monthIndex n mod 12 = MonthFromDay n"
  using MonthFromDay_range[of n] by (simp_all add: monthIndex_def)

lemma MakeDay_firstDay: "MakeDay y m d = firstDay (12 * y + m) + d - 1"
  by (simp add: MakeDay_def firstDay_def Let_def)

lemma MonthFromDay_monthOf:
  "MonthFromDay n = monthOf (inLeapYear (YearFromDay n)) (DayWithinYear n)"
  by (simp add: MonthFromDay_def)

lemma monthOf_bracket:
  fixes l d :: int
  assumes "0 \<le> d" "l = 0 \<or> l = 1"
  shows "monthStart l (monthOf l d) \<le> d \<and> (monthOf l d < 11 \<longrightarrow> d < monthStart l (monthOf l d + 1))"
proof -
  consider "d < 31" | "31 \<le> d" "d < 59 + l" | "59 + l \<le> d" "d < 90 + l"
    | "90 + l \<le> d" "d < 120 + l" | "120 + l \<le> d" "d < 151 + l" | "151 + l \<le> d" "d < 181 + l"
    | "181 + l \<le> d" "d < 212 + l" | "212 + l \<le> d" "d < 243 + l" | "243 + l \<le> d" "d < 273 + l"
    | "273 + l \<le> d" "d < 304 + l" | "304 + l \<le> d" "d < 334 + l" | "334 + l \<le> d"
    by linarith
  then show ?thesis
  proof cases
    case 1 then show ?thesis using assms by (simp add: monthOf_def monthStart_def)
  next
    case 2 then show ?thesis using assms by (simp add: monthOf_def monthStart_def)
  next
    case 3 then show ?thesis using assms by (simp add: monthOf_def monthStart_def)
  next
    case 4 then show ?thesis using assms by (simp add: monthOf_def monthStart_def)
  next
    case 5 then show ?thesis using assms by (simp add: monthOf_def monthStart_def)
  next
    case 6 then show ?thesis using assms by (simp add: monthOf_def monthStart_def)
  next
    case 7 then show ?thesis using assms by (simp add: monthOf_def monthStart_def)
  next
    case 8 then show ?thesis using assms by (simp add: monthOf_def monthStart_def)
  next
    case 9 then show ?thesis using assms by (simp add: monthOf_def monthStart_def)
  next
    case 10 then show ?thesis using assms by (simp add: monthOf_def monthStart_def)
  next
    case 11 then show ?thesis using assms by (simp add: monthOf_def monthStart_def)
  next
    case 12 then show ?thesis using assms by (simp add: monthOf_def monthStart_def)
  qed
qed

lemma month_lower:
  "monthStart (inLeapYear (YearFromDay n)) (MonthFromDay n) \<le> DayWithinYear n"
  unfolding MonthFromDay_monthOf
  using monthOf_bracket[OF DayWithinYear_bounds(1) inLeapYear_cases] by blast

lemma month_upper:
  "MonthFromDay n < 11 \<Longrightarrow>
   DayWithinYear n < monthStart (inLeapYear (YearFromDay n)) (MonthFromDay n + 1)"
  unfolding MonthFromDay_monthOf
  using monthOf_bracket[OF DayWithinYear_bounds(1) inLeapYear_cases] by blast

lemma idx_Suc_div_mod:
  fixes i :: int
  shows "i mod 12 = 11 \<Longrightarrow> (i + 1) div 12 = i div 12 + 1 \<and> (i + 1) mod 12 = 0"
    and "i mod 12 \<noteq> 11 \<Longrightarrow> (i + 1) div 12 = i div 12 \<and> (i + 1) mod 12 = i mod 12 + 1"
proof -
  have m: "(i + 1) mod 12 = (i mod 12 + 1) mod 12" by (simp add: mod_add_left_eq)
  have d: "(i + 1) div 12 = i div 12 + (if (i + 1) mod 12 = 0 then 1 else 0)"
    by (rule div_step) simp
  show "i mod 12 = 11 \<Longrightarrow> (i + 1) div 12 = i div 12 + 1 \<and> (i + 1) mod 12 = 0"
    using m d by simp
  have r: "0 \<le> i mod 12" "i mod 12 < 12" by simp_all
  assume "i mod 12 \<noteq> 11"
  with r have "0 \<le> i mod 12 + 1" "i mod 12 + 1 < 12" by linarith+
  then have "(i mod 12 + 1) mod 12 = i mod 12 + 1" by (rule mod_pos_pos_trivial)
  then have "(i + 1) mod 12 = i mod 12 + 1" using m by simp
  moreover from this r(1) have "(i + 1) mod 12 \<noteq> 0" by linarith
  ultimately show "(i + 1) div 12 = i div 12 \<and> (i + 1) mod 12 = i mod 12 + 1"
    using d by simp
qed

lemma firstDay_Suc:
  "firstDay (i + 1) = firstDay i +
     (monthStart (inLeapYear (i div 12)) (i mod 12 + 1) - monthStart (inLeapYear (i div 12)) (i mod 12))"
  if "i mod 12 \<noteq> 11"
  using idx_Suc_div_mod(2)[OF that] by (simp add: firstDay_def)

lemma firstDay_Suc_dec:
  "firstDay (i + 1) = firstDay i + 31" if "i mod 12 = 11"
  using idx_Suc_div_mod(1)[OF that] that dayFromYear_Suc[of "i div 12"]
  by (simp add: firstDay_def daysInYear_leap monthStart_def)

lemma monthStart_step:
  fixes m l :: int
  assumes "0 \<le> m" "m < 11" "l = 0 \<or> l = 1"
  shows "monthStart l m + 28 \<le> monthStart l (m + 1)"
    and "monthStart l (m + 1) \<le> monthStart l m + 31"
proof -
  have "m = 0 \<or> m = 1 \<or> m = 2 \<or> m = 3 \<or> m = 4 \<or> m = 5 \<or> m = 6 \<or> m = 7 \<or> m = 8 \<or> m = 9 \<or> m = 10"
    using assms(1,2) by arith
  then show "monthStart l m + 28 \<le> monthStart l (m + 1)"
    using assms(3) by (elim disjE) (simp_all add: monthStart_def)
  from \<open>m = 0 \<or> _\<close> show "monthStart l (m + 1) \<le> monthStart l m + 31"
    using assms(3) by (elim disjE) (simp_all add: monthStart_def)
qed

lemma firstDay_step: "firstDay i + 28 \<le> firstDay (i + 1)" "firstDay (i + 1) \<le> firstDay i + 31"
proof -
  define r where "r = i mod 12"
  have r: "0 \<le> r" "r < 12" by (simp_all add: r_def)
  have l: "inLeapYear (i div 12) = 0 \<or> inLeapYear (i div 12) = 1" by (rule inLeapYear_cases)
  have "firstDay i + 28 \<le> firstDay (i + 1) \<and> firstDay (i + 1) \<le> firstDay i + 31"
  proof (cases "i mod 12 = 11")
    case True then show ?thesis by (simp add: firstDay_Suc_dec)
  next
    case False
    then have "r < 11" using r by (simp add: r_def)
    from monthStart_step[OF r(1) this l] show ?thesis
      by (simp add: firstDay_Suc[OF False] r_def)
  qed
  then show "firstDay i + 28 \<le> firstDay (i + 1)" "firstDay (i + 1) \<le> firstDay i + 31"
    by simp_all
qed

lemma firstDay_add: "0 \<le> k \<Longrightarrow> firstDay i + 28 * k \<le> firstDay (i + k)"
proof (induction k rule: int_ge_induct)
  case base show ?case by simp
next
  case (step j)
  then show ?case using firstDay_step(1)[of "i + j"] by (simp add: add.assoc)
qed

lemma firstDay_mono: "i \<le> j \<Longrightarrow> firstDay i \<le> firstDay j"
  using firstDay_add[of "j - i" i] by simp

lemma firstDay_strict: "i < j \<Longrightarrow> firstDay i < firstDay j"
  using firstDay_add[of "j - i" i] by simp

lemma month_bracket:
  "firstDay (monthIndex n) \<le> n" "n < firstDay (monthIndex n + 1)"
proof -
  have n: "n = dayFromYear (YearFromDay n) + DayWithinYear n" by (simp add: DayWithinYear_def)
  show "firstDay (monthIndex n) \<le> n"
    using month_lower[of n] n by (simp add: firstDay_def monthIndex_div_mod)
  show "n < firstDay (monthIndex n + 1)"
  proof (cases "MonthFromDay n = 11")
    case True
    then have "monthIndex n mod 12 = 11" by (simp add: monthIndex_div_mod)
    from idx_Suc_div_mod(1)[OF this] YearFromDay_bracket(2)[of n]
    show ?thesis by (simp add: firstDay_def monthIndex_div_mod monthStart_def)
  next
    case False
    then have "monthIndex n mod 12 \<noteq> 11" by (simp add: monthIndex_div_mod)
    from idx_Suc_div_mod(2)[OF this] month_upper[of n] False MonthFromDay_range[of n] n
    show ?thesis by (simp add: firstDay_def monthIndex_div_mod)
  qed
qed

lemma monthIndex_unique:
  assumes "firstDay i \<le> n" "n < firstDay (i + 1)"
  shows "monthIndex n = i"
proof (rule ccontr)
  assume ne: "monthIndex n \<noteq> i"
  show False
  proof (cases "monthIndex n < i")
    case True
    then have "firstDay (monthIndex n + 1) \<le> firstDay i" by (intro firstDay_mono) simp
    then show False using month_bracket(2)[of n] assms(1) by simp
  next
    case False
    with ne have "firstDay (i + 1) \<le> firstDay (monthIndex n)" by (intro firstDay_mono) simp
    then show False using month_bracket(1)[of n] assms(2) by simp
  qed
qed

lemma DateFromDay_firstDay: "DateFromDay n = n - firstDay (monthIndex n) + 1"
  by (simp add: DateFromDay_def firstDay_def monthIndex_div_mod DayWithinYear_def)

lemma MakeDay_own_month: "MakeDay (YearFromDay n) (MonthFromDay n) d = firstDay (monthIndex n) + d - 1"
  by (simp add: MakeDay_firstDay monthIndex_def)

subsection \<open>Days, weeks and the date-fns functions\<close>

lemma msPerDay_pos: "0 < msPerDay"
  by (simp add: msPerDay_def)

lemma Day_TimeWithinDay: "Day t * msPerDay + TimeWithinDay t = t"
  by (simp add: Day_def TimeWithinDay_def)



lemma Day_add_days: "Day (t + k * msPerDay) = Day t + k"
  using msPerDay_pos by (simp add: Day_def)

lemma TimeWithinDay_add_days: "TimeWithinDay (t + k * msPerDay) = TimeWithinDay t"
  by (simp add: TimeWithinDay_def)

lemma getDate_firstDay: "getDate t = Day t - firstDay (monthIndex (Day t)) + 1"
  by (simp add: getDate_def DateFromDay_firstDay)

lemma setDate_eq: "setDate t d = t + (d - getDate t) * msPerDay"
proof -
  have "setDate t d = (firstDay (monthIndex (Day t)) + d - 1) * msPerDay + TimeWithinDay t"
    by (simp add: setDate_def getFullYear_def getMonth_def MakeDay_own_month MakeDate_def)
  also have "firstDay (monthIndex (Day t)) + d - 1 = Day t + (d - getDate t)"
    by (simp add: getDate_firstDay)
  also have "(Day t + (d - getDate t)) * msPerDay + TimeWithinDay t
      = (Day t * msPerDay + TimeWithinDay t) + (d - getDate t) * msPerDay"
    by (simp add: algebra_simps)
  finally show ?thesis by (simp only: Day_TimeWithinDay)
qed

lemma WeekDay_range: "0 \<le> WeekDay n" "WeekDay n \<le> 6"
  by (simp_all add: WeekDay_def)

lemma setHours_eq:
  "setHours t 0 0 0 0 = Day t * msPerDay"
  "setHours t 23 59 59 999 = Day t * msPerDay + 86399999"
  by (simp_all add: setHours_def MakeDate_def MakeTime_def)

lemma startOfWeek_eq: "startOfWeek t = (Day t - WeekDay (Day t)) * msPerDay"
proof -
  have "setDate t (getDate t - getDay t) = t + (- getDay t) * msPerDay"
    by (simp add: setDate_eq)
  then have "Day (setDate t (getDate t - getDay t)) = Day t - getDay t"
    using Day_add_days[of t "- getDay t"] by simp
  then show ?thesis using WeekDay_range(1)[of "Day t"]
    by (simp add: startOfWeek_def Let_def setHours_eq getDay_def)
qed








lemma Day_days: "Day (n * msPerDay) = n"
  using msPerDay_pos by (simp add: Day_def)


lemma week_floor: "n - WeekDay n = 7 * ((n + 4) div 7) - 4"
  using minus_mod_eq_mult_div[of "n + 4" 7] by (simp add: WeekDay_def)

lemma WeekDay_start: "WeekDay (n - WeekDay n) = 0"
proof -
  have "WeekDay (7 * ((n + 4) div 7) - 4) = 0" by (simp add: WeekDay_def)
  then show ?thesis by (simp only: week_floor)
qed











section \<open>The month grid\<close>



section \<open>Loops on the Invalid Date\<close>

text \<open>
  \<^verbatim>\<open>addDays\<close> and \<^verbatim>\<open>addMonths\<close> keep the Invalid Date invalid, and \<^verbatim>\<open>isAfter\<close> is false
  on it. So a loop of the form \<^verbatim>\<open>while (!isAfter(cursor, end))\<close> that returns has a
  valid cursor in every round, and one whose cursor is the Invalid Date never exits.
\<close>

lemma addDays_None: "addDays None k = None"
  by (simp add: addDays_def)

lemma addMonths_None: "addMonths None k = None"
  by (simp add: addMonths_def)

lemma isAfter_valid: "isAfter a b \<Longrightarrow> \<exists>u. a = Some u"
  by (cases a) (simp_all add: isAfter_def)

lemma addDays_valid: "addDays d k = Some t \<Longrightarrow> \<exists>u. d = Some u"
  by (cases d) (simp_all add: addDays_None)

lemma addMonths_valid: "addMonths d k = Some t \<Longrightarrow> \<exists>u. d = Some u"
  by (cases d) (simp_all add: addMonths_None)

lemma daily_emit_valid: "daily_emit d en iv tid acc = Some y \<Longrightarrow> d \<noteq> None"
  by (rule daily_emit.raw_induct[where P = "\<lambda>d en iv tid acc y. d \<noteq> None"])
     (auto split: if_splits dest: isAfter_valid, (blast dest: addDays_valid)+)

lemma daily_emit_invalid: "daily_emit None en iv tid acc = None"
  using daily_emit_valid[of None en iv tid acc] by (cases "daily_emit None en iv tid acc") auto

lemma weekly_loop_valid: "weekly_loop task w s e acc = Some y \<Longrightarrow> w \<noteq> None"
  by (rule weekly_loop.raw_induct[where P = "\<lambda>task w s e acc y. w \<noteq> None"])
     (auto split: if_splits dest: isAfter_valid, (blast dest: addDays_valid)+)

lemma weekly_loop_invalid: "weekly_loop task None s e acc = None"
  using weekly_loop_valid[of task None s e acc] by (cases "weekly_loop task None s e acc") auto

lemma monthly_emit_valid: "monthly_emit m s e iv dy b tid acc = Some y \<Longrightarrow> m \<noteq> None"
  by (rule monthly_emit.raw_induct[where P = "\<lambda>m s e iv dy b tid acc y. m \<noteq> None"])
     (auto split: if_splits dest: isAfter_valid, (blast dest: addMonths_valid)+)

lemma monthly_emit_invalid: "monthly_emit None s e iv dy b tid acc = None"
  using monthly_emit_valid[of None s e iv dy b tid acc]
  by (cases "monthly_emit None s e iv dy b tid acc") auto

section \<open>Duplicate weekdays\<close>

text \<open>
  The weekly loop sorts the weekdays and emits one occurrence for every entry, so the
  run on a list with duplicates is the run on the list without them, with the
  occurrences of a weekday repeated as often as the list names it. The two runs are
  compared round by round: the week cursors are the same, valid Sundays, and the
  weekdays 0 to 6 of a week are the days of the week of its occurrences.
\<close>

subsection \<open>Sorting a list with duplicates\<close>

lemma digits_small: "n < 10 \<Longrightarrow> digits n = [char_of (48 + n)]"
  by (subst digits.simps) simp

lemma toString_digit: "0 \<le> a \<Longrightarrow> a \<le> 9 \<Longrightarrow> toString a = [char_of (48 + nat a)]"
  by (simp add: toString_def digits_small)

lemma toString_inj_digit:
  assumes "0 \<le> a" "a \<le> 9" "0 \<le> b" "b \<le> 9" "toString a = toString b"
  shows "a = b"
proof -
  have "[char_of (48 + nat a)] = [char_of (48 + nat b) :: char]"
    using assms(5) unfolding toString_digit[OF assms(1,2)] toString_digit[OF assms(3,4)] .
  then have "(char_of (48 + nat a) :: char) = char_of (48 + nat b)" by simp
  then have "(of_char (char_of (48 + nat a) :: char) :: nat) = of_char (char_of (48 + nat b) :: char)"
    by simp
  then have "(48 + nat a) mod 256 = (48 + nat b) mod 256"
    by (simp only: of_char_of)
  moreover have "48 + nat a < 256" "48 + nat b < 256" using assms(2,4) by linarith+
  ultimately have "48 + nat a = 48 + nat b" by simp
  then show ?thesis using assms(1,3) by linarith
qed

lemma js_sort_idem: "js_sort (js_sort xs) = js_sort xs"
  unfolding js_sort_def by (rule sort_key_id_if_sorted) simp

lemma set_js_sort: "set (js_sort xs) = set xs"
  by (simp add: js_sort_def)

lemma repeatEach_Nil: "repeatEach n [] = []"
  by (simp add: repeatEach_def)

lemma repeatEach_Cons: "repeatEach n (x # xs) = replicate (n x) x @ repeatEach n xs"
  by (simp add: repeatEach_def)

lemma repeatEach_append: "repeatEach n (xs @ ys) = repeatEach n xs @ repeatEach n ys"
  by (simp add: repeatEach_def)

lemma set_repeatEach: "set (repeatEach n xs) \<subseteq> set xs"
  by (auto simp: repeatEach_def)

lemma count_list_replicate: "count_list (replicate k x) a = (if x = a then k else 0)"
  by (induction k) auto

lemma count_list_repeatEach:
  "distinct xs \<Longrightarrow> count_list (repeatEach n xs) a = (if a \<in> set xs then n a else 0)"
  by (induction xs) (auto simp: repeatEach_Nil repeatEach_Cons count_list_replicate)

lemma mset_repeatEach:
  "mset (repeatEach (count_list wds) (js_sort (remdups wds))) = mset wds"
proof (rule multiset_eqI)
  fix a
  have d: "distinct (js_sort (remdups wds))" by (simp add: js_sort_def)
  have s: "set (js_sort (remdups wds)) = set wds" by (simp add: js_sort_def)
  have "count_list (repeatEach (count_list wds) (js_sort (remdups wds))) a = count_list wds a"
    unfolding count_list_repeatEach[OF d] s by (simp add: count_list_0_iff)
  then show "count (mset (repeatEach (count_list wds) (js_sort (remdups wds)))) a
      = count (mset wds) a"
    by (simp only: count_mset)
qed

lemma sorted_map_repeatEach: "sorted (map f xs) \<Longrightarrow> sorted (map f (repeatEach n xs))"
proof (induction xs)
  case Nil
  then show ?case by (simp add: repeatEach_Nil)
next
  case (Cons x xs)
  have sub: "set (repeatEach n xs) \<subseteq> set xs" by (rule set_repeatEach)
  show ?case using Cons sub by (auto simp: repeatEach_Cons sorted_append)
qed

lemma filter_toString_eq:
  assumes "\<forall>x\<in>set zs. 0 \<le> x \<and> x \<le> 9" "0 \<le> k" "k \<le> 9"
  shows "filter (\<lambda>x. toString k = toString x) zs = filter ((=) k) zs"
  using assms by (intro filter_cong) (auto dest: toString_inj_digit)

lemma js_sort_duplicates:
  assumes "\<forall>x\<in>set wds. 0 \<le> x \<and> x \<le> 9"
  shows "js_sort wds = repeatEach (count_list wds) (js_sort (remdups wds))"
proof -
  define Y where "Y = repeatEach (count_list wds) (js_sort (remdups wds))"
  have m: "mset Y = mset wds" unfolding Y_def by (rule mset_repeatEach)
  have setY: "set Y = set wds" using m by (rule mset_eq_setD)
  have f: "filter (\<lambda>x. toString k = toString x) Y = filter (\<lambda>x. toString k = toString x) wds"
    if "k \<in> set Y" for k
  proof -
    have k: "0 \<le> k" "k \<le> 9" using that setY assms by auto
    have y: "\<forall>x\<in>set Y. 0 \<le> x \<and> x \<le> 9" using setY assms by auto
    have "filter ((=) k) Y = replicate (count (mset Y) k) k"
      by (rule replicate_count_mset_eq_filter_eq[symmetric])
    also have "\<dots> = filter ((=) k) wds"
      unfolding m by (rule replicate_count_mset_eq_filter_eq)
    finally show ?thesis
      unfolding filter_toString_eq[OF y k] filter_toString_eq[OF assms k] .
  qed
  have s: "sorted (map toString Y)"
    unfolding Y_def by (rule sorted_map_repeatEach) (simp add: js_sort_def)
  have "sort_key toString wds = Y" by (rule properties_for_sort_key[OF m f s])
  then show ?thesis by (simp add: js_sort_def Y_def)
qed

lemma repeatEach_map_filter:
  assumes "\<And>x. x \<in> set xs \<Longrightarrow> m (g x) = n x"
  shows "repeatEach m (map g (filter p xs)) = map g (filter p (repeatEach n xs))"
  using assms
  by (induction xs) (auto simp: repeatEach_Nil repeatEach_Cons)

subsection \<open>One week of the weekly loop\<close>

lemma weekly_week_eq:
  "weekly_week w s e tid wds acc =
     acc @ map (\<lambda>wd. \<lparr>date = addDays w wd, baseId = tid\<rparr>)
             (filter (\<lambda>wd. \<not> isBefore (addDays w wd) s \<and> \<not> isAfter (addDays w wd) e) wds)"
  by (induction wds arbitrary: acc) (simp_all add: Let_def)

lemma addDays_Some:
  "addDays (Some t) k = (if k = 0 then Some t else timeClip (t + k * msPerDay))"
  by (simp add: addDays_def setDate_eq)

lemma timeClip_between:
  assumes "timeClip a = Some a" "timeClip c = Some c" "a \<le> b" "b \<le> c"
  shows "timeClip b = Some b"
proof -
  have a: "\<bar>a - LocalTZA\<bar> \<le> maxTimeValue" using assms(1) by (simp add: timeClip_def split: if_splits)
  have c: "\<bar>c - LocalTZA\<bar> \<le> maxTimeValue" using assms(2) by (simp add: timeClip_def split: if_splits)
  have "\<bar>b - LocalTZA\<bar> \<le> maxTimeValue" using a c assms(3,4) by linarith
  then show ?thesis by (simp add: timeClip_def)
qed

lemma timeClip_Some: "timeClip a = Some b \<Longrightarrow> b = a \<and> timeClip a = Some a"
  by (simp add: timeClip_def split: if_splits)

lemma WeekDay_offset: "WeekDay n = 0 \<Longrightarrow> 0 \<le> x \<Longrightarrow> x \<le> 6 \<Longrightarrow> WeekDay (n + x) = x"
  unfolding WeekDay_def by presburger

lemma weekday_of_week:
  assumes t: "timeClip t = Some t" "getDay t = 0"
    and nxt: "addDays (Some t) (7 * iv) \<noteq> None" and iv: "1 \<le> iv"
    and x: "0 \<le> x" "x \<le> 6"
  shows "addDays (Some t) x = Some (t + x * msPerDay)" "getDay (t + x * msPerDay) = x"
proof -
  define c where "c = t + (7 * iv) * msPerDay"
  have "7 * iv \<noteq> 0" using iv by simp
  then have "timeClip c \<noteq> None" using nxt by (simp add: addDays_Some c_def)
  then have c: "timeClip c = Some c" by (simp add: timeClip_def split: if_splits)
  have "0 * msPerDay \<le> x * msPerDay" using x(1) msPerDay_pos by (intro mult_right_mono) simp_all
  then have lo: "t \<le> t + x * msPerDay" by simp
  have "x \<le> 7 * iv" using x(2) iv by simp
  then have "x * msPerDay \<le> (7 * iv) * msPerDay" using msPerDay_pos by (intro mult_right_mono) simp_all
  then have hi: "t + x * msPerDay \<le> c" by (simp add: c_def)
  have "timeClip (t + x * msPerDay) = Some (t + x * msPerDay)"
    by (rule timeClip_between[OF t(1) c lo hi])
  then show "addDays (Some t) x = Some (t + x * msPerDay)"
    by (simp add: addDays_Some)
  have "WeekDay (Day t) = 0" using t(2) by (simp add: getDay_def)
  then show "getDay (t + x * msPerDay) = x"
    using x by (simp add: getDay_def Day_add_days WeekDay_offset)
qed

lemma weekly_week_duplicates:
  assumes t: "timeClip t = Some t" "getDay t = 0"
    and nxt: "addDays (Some t) (7 * iv) \<noteq> None" and iv: "1 \<le> iv"
    and ys: "\<forall>x\<in>set ys. 0 \<le> x \<and> x \<le> 6"
  shows "weekly_week (Some t) s e tid (repeatEach (count_list wds) ys)
           (repeatEach (timesListed wds) acc)
         = repeatEach (timesListed wds) (weekly_week (Some t) s e tid ys acc)"
proof -
  have g: "timesListed wds \<lparr>date = addDays (Some t) x, baseId = tid\<rparr> = count_list wds x"
    if "x \<in> set ys" for x
  proof -
    have x: "0 \<le> x" "x \<le> 6" using that ys by auto
    show ?thesis
      by (simp add: timesListed_def weekday_of_week[OF t nxt iv x])
  qed
  have "repeatEach (timesListed wds)
          (map (\<lambda>wd. \<lparr>date = addDays (Some t) wd, baseId = tid\<rparr>) (filter p ys))
        = map (\<lambda>wd. \<lparr>date = addDays (Some t) wd, baseId = tid\<rparr>)
            (filter p (repeatEach (count_list wds) ys))" for p
    by (rule repeatEach_map_filter) (rule g)
  then show ?thesis
    unfolding weekly_week_eq repeatEach_append by simp
qed

subsection \<open>The weekly loop on a list with duplicates\<close>

lemma sort_weekdays_weekly:
  "recurrence task = Weekly iv wds \<Longrightarrow>
   sort_weekdays task = task\<lparr>recurrence := Weekly iv (js_sort wds)\<rparr>"
  by (simp add: sort_weekdays_def)

lemma weekly_loop_done:
  "isAfter w e \<Longrightarrow> weekly_loop task w s e acc = Some (acc, task)"
  by (subst weekly_loop.simps) simp

lemma weekly_loop_step:
  assumes "\<not> isAfter w e" "recurrence task = Weekly iv wds"
  shows "weekly_loop task w s e acc
         = weekly_loop (task\<lparr>recurrence := Weekly iv (js_sort wds)\<rparr>) (addDays w (7 * iv)) s e
             (weekly_week w s e (taskId task) (js_sort wds) acc)"
  using assms
  by (subst weekly_loop.simps)
     (simp add: sort_weekdays_weekly week_interval_of_def weekdays_of_def)

lemma weekly_loop_returns_transfer:
  assumes run: "weekly_loop t1 w s e acc1 = Some y"
  shows "\<forall>(t2::Task) acc2 ws1 ws2. recurrence t1 = Weekly iv ws1 \<longrightarrow> recurrence t2 = Weekly iv ws2
           \<longrightarrow> weekly_loop t2 w s e acc2 \<noteq> None"
proof (rule weekly_loop.raw_induct[where P = "\<lambda>t1 w s e acc1 y.
    \<forall>(t2::Task) acc2 ws1 ws2. recurrence t1 = Weekly iv ws1 \<longrightarrow> recurrence t2 = Weekly iv ws2
           \<longrightarrow> weekly_loop t2 w s e acc2 \<noteq> None", OF _ run], goal_cases)
  case (1 F t1 w s e acc1 y)
  show ?case
  proof (intro allI impI)
    fix t2 :: Task and acc2 ws1 ws2
    assume r1: "recurrence t1 = Weekly iv ws1" and r2: "recurrence t2 = Weekly iv ws2"
    show "weekly_loop t2 w s e acc2 \<noteq> None"
    proof (cases "isAfter w e")
      case True
      then show ?thesis by (simp add: weekly_loop_done)
    next
      case False
      have "F (t1\<lparr>recurrence := Weekly iv (js_sort ws1)\<rparr>) (addDays w (7 * iv)) s e
              (weekly_week w s e (taskId t1) (js_sort ws1) acc1) = Some y"
        using 1(2) False r1
        by (simp add: sort_weekdays_weekly week_interval_of_def weekdays_of_def)
      from 1(1)[OF this, rule_format,
          of "js_sort ws1" "t2\<lparr>recurrence := Weekly iv (js_sort ws2)\<rparr>" "js_sort ws2"
             "weekly_week w s e (taskId t2) (js_sort ws2) acc2"]
      have "weekly_loop (t2\<lparr>recurrence := Weekly iv (js_sort ws2)\<rparr>) (addDays w (7 * iv)) s e
              (weekly_week w s e (taskId t2) (js_sort ws2) acc2) \<noteq> None"
        by simp
      then show ?thesis unfolding weekly_loop_step[OF False r2] .
    qed
  qed
qed

lemma weekly_loop_duplicates:
  assumes iv: "1 \<le> iv" and run: "weekly_loop t2 w s e acc2 = Some y"
  shows "w \<noteq> None \<and>
         (\<forall>t1 ws1 ws2.
            recurrence t1 = Weekly iv ws1 \<longrightarrow> recurrence t2 = Weekly iv ws2
            \<longrightarrow> taskId t1 = taskId t2
            \<longrightarrow> js_sort ws1 = repeatEach (count_list wds) (js_sort ws2)
            \<longrightarrow> (\<forall>x\<in>set ws2. 0 \<le> x \<and> x \<le> 6)
            \<longrightarrow> (\<forall>t. w = Some t \<longrightarrow> timeClip t = Some t \<and> getDay t = 0)
            \<longrightarrow> (\<exists>u. weekly_loop t1 w s e (repeatEach (timesListed wds) acc2)
                       = Some (repeatEach (timesListed wds) (fst y), u)))"
proof (rule weekly_loop.raw_induct[where P = "\<lambda>t2 w s e acc2 y. w \<noteq> None \<and>
         (\<forall>t1 ws1 ws2.
            recurrence t1 = Weekly iv ws1 \<longrightarrow> recurrence t2 = Weekly iv ws2
            \<longrightarrow> taskId t1 = taskId t2
            \<longrightarrow> js_sort ws1 = repeatEach (count_list wds) (js_sort ws2)
            \<longrightarrow> (\<forall>x\<in>set ws2. 0 \<le> x \<and> x \<le> 6)
            \<longrightarrow> (\<forall>t. w = Some t \<longrightarrow> timeClip t = Some t \<and> getDay t = 0)
            \<longrightarrow> (\<exists>u. weekly_loop t1 w s e (repeatEach (timesListed wds) acc2)
                       = Some (repeatEach (timesListed wds) (fst y), u)))", OF _ run], goal_cases)
  case (1 F t2 w s e acc2 y)
  show ?case
  proof (cases "isAfter w e")
    case True
    then have y: "y = (acc2, t2)" using 1(2) by simp
    have "w \<noteq> None" using isAfter_valid[OF True] by auto
    then show ?thesis using True y by (simp add: weekly_loop_done)
  next
    case False
    define w' where "w' = addDays w (7 * week_interval_of (recurrence (sort_weekdays t2)))"
    define a' where "a' = weekly_week w s e (taskId t2)
        (weekdays_of (recurrence (sort_weekdays t2))) acc2"
    have F: "F (sort_weekdays t2) w' s e a' = Some y"
      using 1(2) False by (simp add: w'_def a'_def)
    note ih = 1(1)[OF F]
    have w'v: "w' \<noteq> None" using ih by simp
    then have wv: "w \<noteq> None" unfolding w'_def using addDays_valid[of w] by (cases w) (auto simp: addDays_None)
    have sim: "\<exists>u. weekly_loop t1 w s e (repeatEach (timesListed wds) acc2)
                       = Some (repeatEach (timesListed wds) (fst y), u)"
      if r1: "recurrence t1 = Weekly iv ws1" and r2: "recurrence t2 = Weekly iv ws2"
        and tid: "taskId t1 = taskId t2"
        and js: "js_sort ws1 = repeatEach (count_list wds) (js_sort ws2)"
        and rng: "\<forall>x\<in>set ws2. 0 \<le> x \<and> x \<le> 6"
        and inv: "\<forall>t. w = Some t \<longrightarrow> timeClip t = Some t \<and> getDay t = 0"
      for t1 ws1 ws2
    proof -
      obtain t where w: "w = Some t" using wv by auto
      have t: "timeClip t = Some t" "getDay t = 0" using inv w by auto
      have s2: "sort_weekdays t2 = t2\<lparr>recurrence := Weekly iv (js_sort ws2)\<rparr>"
        by (rule sort_weekdays_weekly[OF r2])
      have w': "w' = addDays (Some t) (7 * iv)"
        by (simp add: w'_def s2 week_interval_of_def w)
      have a': "a' = weekly_week (Some t) s e (taskId t2) (js_sort ws2) acc2"
        by (simp add: a'_def s2 weekdays_of_def w)
      have nxt: "addDays (Some t) (7 * iv) \<noteq> None" using w'v w' by simp
      have rng': "\<forall>x\<in>set (js_sort ws2). 0 \<le> x \<and> x \<le> 6" using rng by (simp add: set_js_sort)
      have week: "weekly_week (Some t) s e (taskId t1) (js_sort ws1)
                     (repeatEach (timesListed wds) acc2)
                  = repeatEach (timesListed wds) a'"
        unfolding a' js tid by (rule weekly_week_duplicates[OF t nxt iv rng'])
      have inv': "\<forall>t'. w' = Some t' \<longrightarrow> timeClip t' = Some t' \<and> getDay t' = 0"
      proof (intro allI impI)
        fix t' assume "w' = Some t'"
        then have c: "timeClip (t + (7 * iv) * msPerDay) = Some t'"
          using iv by (simp add: w' addDays_Some)
        have e: "t' = t + (7 * iv) * msPerDay" "timeClip t' = Some t'"
          using timeClip_Some[OF c] c by auto
        have "WeekDay (Day t) = 0" using t(2) by (simp add: getDay_def)
        then have "WeekDay (Day t + 7 * iv) = 0" unfolding WeekDay_def by presburger
        then have "getDay t' = 0" by (simp add: e(1) getDay_def Day_add_days)
        then show "timeClip t' = Some t' \<and> getDay t' = 0" using e(2) by simp
      qed
      have js': "js_sort (js_sort ws1) = repeatEach (count_list wds) (js_sort (js_sort ws2))"
        unfolding js_sort_idem by (rule js)
      have r1': "recurrence (t1\<lparr>recurrence := Weekly iv (js_sort ws1)\<rparr>) = Weekly iv (js_sort ws1)"
        by simp
      have r2': "recurrence (sort_weekdays t2) = Weekly iv (js_sort ws2)"
        by (simp add: s2)
      have tid': "taskId (t1\<lparr>recurrence := Weekly iv (js_sort ws1)\<rparr>) = taskId (sort_weekdays t2)"
        by (simp add: s2 tid)
      from ih r1' r2' tid' js' rng' inv'
      have "\<exists>u. weekly_loop (t1\<lparr>recurrence := Weekly iv (js_sort ws1)\<rparr>) w' s e
                  (repeatEach (timesListed wds) a')
              = Some (repeatEach (timesListed wds) (fst y), u)"
        by blast
      moreover have "weekly_loop t1 w s e (repeatEach (timesListed wds) acc2)
          = weekly_loop (t1\<lparr>recurrence := Weekly iv (js_sort ws1)\<rparr>) w' s e
              (repeatEach (timesListed wds) a')"
        unfolding weekly_loop_step[OF False r1] by (simp add: w w' week)
      ultimately show ?thesis by simp
    qed
    show ?thesis using wv sim by blast
  qed
qed

lemma startOfWeek_sunday: "getDay (startOfWeek t) = 0"
  by (simp add: getDay_def startOfWeek_eq Day_days WeekDay_start)

lemma week_cursor_invariant:
  "\<forall>t. onDate startOfWeek d = Some t \<longrightarrow> timeClip t = Some t \<and> getDay t = 0"
proof (intro allI impI)
  fix t assume a: "onDate startOfWeek d = Some t"
  then obtain t0 where d: "d = Some t0" by (cases d) (simp_all add: onDate_def)
  have c: "timeClip (startOfWeek t0) = Some t" using a by (simp add: d onDate_def)
  from timeClip_Some[OF c] show "timeClip t = Some t \<and> getDay t = 0"
    using c by (simp add: startOfWeek_sunday)
qed

text \<open>
  Claim C4 (duplicate weekdays), as amended. For every weekly task with a well-formed
  recurrence (interval at least 1, weekdays from 0 to 6) and every window, the call on
  the task returns exactly when the call on the task with the duplicate weekdays removed
  returns, and its sequence of occurrences is then the sequence of the de-duplicated
  task with every occurrence repeated, in place, as many times as the weekdays list
  names its day of the week. So the order of the occurrences is the same, and a
  weekday listed \<open>k\<close> times yields each of its occurrences \<open>k\<close> times.
\<close>

theorem duplicate_weekdays_repeat:
  assumes "recurrence task = Weekly iv wds" "wellFormed (recurrence task)"
  shows "map_option fst (expandRecurrence task s e)
         = map_option (repeatEach (timesListed wds) \<circ> fst)
             (expandRecurrence (task\<lparr>recurrence := Weekly iv (remdups wds)\<rparr>) s e)"
proof -
  define t2 where "t2 = task\<lparr>recurrence := Weekly iv (remdups wds)\<rparr>"
  define w where "w = onDate startOfWeek (maxDate (dueDate task) s)"
  have iv: "1 \<le> iv" and rng: "\<forall>x\<in>set wds. 0 \<le> x \<and> x \<le> 6"
    using assms by (simp_all add: wellFormed_def list_all_iff)
  have r2: "recurrence t2 = Weekly iv (remdups wds)" by (simp add: t2_def)
  have e1: "expandRecurrence task s e = weekly_loop task w s e []"
    using assms(1) by (simp add: expandRecurrence_def Let_def w_def)
  have e2: "expandRecurrence t2 s e = weekly_loop t2 w s e []"
    by (simp add: expandRecurrence_def Let_def w_def t2_def)
  have js: "js_sort wds = repeatEach (count_list wds) (js_sort (remdups wds))"
    using rng by (intro js_sort_duplicates) auto
  have rng2: "\<forall>x\<in>set (remdups wds). 0 \<le> x \<and> x \<le> 6" using rng by simp
  have inv: "\<forall>t. w = Some t \<longrightarrow> timeClip t = Some t \<and> getDay t = 0"
    unfolding w_def by (rule week_cursor_invariant)
  have tid: "taskId task = taskId t2" by (simp add: t2_def)
  show ?thesis
  proof (cases "weekly_loop t2 w s e []")
    case None
    have "weekly_loop task w s e [] = None"
    proof (rule ccontr)
      assume "weekly_loop task w s e [] \<noteq> None"
      then obtain y where "weekly_loop task w s e [] = Some y" by auto
      from weekly_loop_returns_transfer[OF this, rule_format, OF assms(1) r2, of "[]"]
      show False using None by simp
    qed
    then show ?thesis unfolding e1 e2[unfolded t2_def] using None by (simp add: t2_def)
  next
    case (Some y)
    from weekly_loop_duplicates[OF iv Some, where wds = wds] assms(1) r2 tid js rng2 inv
    obtain u where "weekly_loop task w s e (repeatEach (timesListed wds) [])
        = Some (repeatEach (timesListed wds) (fst y), u)" by blast
    then have "weekly_loop task w s e [] = Some (repeatEach (timesListed wds) (fst y), u)"
      by (simp add: repeatEach_Nil)
    then show ?thesis unfolding e1 e2[unfolded t2_def] using Some by (simp add: t2_def)
  qed
qed

theorem duplicate_weekdays_repeat_witness:
  "recurrence (sampleTask (localDate 2024 3 6 8 30 0 0) (Weekly 1 [3, 1, 1])) = Weekly 1 [3, 1, 1]
   \<and> wellFormed (recurrence (sampleTask (localDate 2024 3 6 8 30 0 0) (Weekly 1 [3, 1, 1])))
   \<and> map_option fst
        (expandRecurrence (sampleTask (localDate 2024 3 6 8 30 0 0) (Weekly 1 [3, 1, 1]))
           (localDate 2024 3 1 0 0 0 0) (localDate 2024 3 10 0 0 0 0))
     = map_option (repeatEach (timesListed [3, 1, 1]) \<circ> fst)
        (expandRecurrence
           ((sampleTask (localDate 2024 3 6 8 30 0 0) (Weekly 1 [3, 1, 1]))
              \<lparr>recurrence := Weekly 1 (remdups [3, 1, 1])\<rparr>)
           (localDate 2024 3 1 0 0 0 0) (localDate 2024 3 10 0 0 0 0))"
proof -
  have h: "recurrence (sampleTask (localDate 2024 3 6 8 30 0 0) (Weekly 1 [3, 1, 1]))
      = Weekly 1 [3, 1, 1]"
    by (simp add: sampleTask_def)
  have w: "wellFormed (recurrence (sampleTask (localDate 2024 3 6 8 30 0 0) (Weekly 1 [3, 1, 1])))"
    by (simp add: sampleTask_def wellFormed_def)
  from duplicate_weekdays_repeat[OF h w] h w show ?thesis by blast
qed

text \<open>
  Claim C4 as stated does not hold: with weekdays \<open>[1, 1]\<close> the Monday of the week is
  returned twice, with the duplicates removed once.
\<close>

theorem duplicate_weekdays_counterexample:
  "map_option fst
     (expandRecurrence (sampleTask (localDate 2024 3 6 8 30 0 0) (Weekly 1 [1, 1]))
        (localDate 2024 3 1 0 0 0 0) (localDate 2024 3 10 0 0 0 0))
     = Some [\<lparr>date = localDate 2024 3 4 0 0 0 0, baseId = ''k3x9''\<rparr>,
             \<lparr>date = localDate 2024 3 4 0 0 0 0, baseId = ''k3x9''\<rparr>]
   \<and> map_option fst
     (expandRecurrence (sampleTask (localDate 2024 3 6 8 30 0 0) (Weekly 1 (remdups [1, 1])))
        (localDate 2024 3 1 0 0 0 0) (localDate 2024 3 10 0 0 0 0))
     = Some [\<lparr>date = localDate 2024 3 4 0 0 0 0, baseId = ''k3x9''\<rparr>]
   \<and> map_option fst
     (expandRecurrence (sampleTask (localDate 2024 3 6 8 30 0 0) (Weekly 1 [1, 1]))
        (localDate 2024 3 1 0 0 0 0) (localDate 2024 3 10 0 0 0 0))
     \<noteq> map_option fst
     (expandRecurrence (sampleTask (localDate 2024 3 6 8 30 0 0) (Weekly 1 (remdups [1, 1])))
        (localDate 2024 3 1 0 0 0 0) (localDate 2024 3 10 0 0 0 0))"
  by code_simp

section \<open>Concrete scenarios of expandRecurrence\<close>

text \<open>
  Claim C6 (monthly scenario). A task due 2024-01-31T10:00 with recurrence
  \<open>monthly{interval: 1, day: 28}\<close>, expanded over the window from 2024-02-01T00:00
  to the last millisecond of 2024-04-30, yields exactly the occurrences
  2024-02-28 10:00, 2024-03-28 10:00 and 2024-04-28 10:00, in this order, and leaves
  the task as it was. The other fields of the task are arbitrary.
\<close>

theorem monthly_scenario:
  "expandRecurrence
     (task\<lparr>dueDate := localDate 2024 1 31 10 0 0 0, recurrence := Monthly 1 28\<rparr>)
     (localDate 2024 2 1 0 0 0 0) (localDate 2024 4 30 23 59 59 999)
   = Some ([\<lparr>date = localDate 2024 2 28 10 0 0 0, baseId = taskId task\<rparr>,
            \<lparr>date = localDate 2024 3 28 10 0 0 0, baseId = taskId task\<rparr>,
            \<lparr>date = localDate 2024 4 28 10 0 0 0, baseId = taskId task\<rparr>],
           task\<lparr>dueDate := localDate 2024 1 31 10 0 0 0, recurrence := Monthly 1 28\<rparr>)"
proof -
  have s: "monthly_skip (localDate 2024 1 31 10 0 0 0) (localDate 2024 2 1 0 0 0 0) 1
        = Some (localDate 2024 2 29 10 0 0 0)"
    by code_simp
  have e: "monthly_emit (localDate 2024 2 29 10 0 0 0) (localDate 2024 2 1 0 0 0 0)
             (localDate 2024 4 30 23 59 59 999) 1 28 (localDate 2024 1 31 10 0 0 0) tid []
        = Some [\<lparr>date = localDate 2024 2 28 10 0 0 0, baseId = tid\<rparr>,
            \<lparr>date = localDate 2024 3 28 10 0 0 0, baseId = tid\<rparr>,
            \<lparr>date = localDate 2024 4 28 10 0 0 0, baseId = tid\<rparr>]" for tid
    by code_simp
  show ?thesis by (simp add: expandRecurrence_def s e)
qed

text \<open>
  Claim C1 (window monotonicity) at a weekly task that repeats every 2 weeks. The task
  is due on Monday 2024-03-04 08:00 and recurs on Mondays. The window from 2024-03-10
  to 2024-03-31 lies inside the window from 2024-03-01 to 2024-03-31. Over the inner
  window the weeks are counted from the week of its start, 2024-03-10, and the call
  returns the Mondays 03-11 and 03-25; over the outer window they are counted from the
  week of the due date and the call returns the Mondays 03-04 and 03-18. Neither
  occurrence of the inner window is among those of the outer one.
\<close>

theorem weekly_window_not_monotone:
  "\<not> isAfter (localDate 2024 3 1 0 0 0 0) (localDate 2024 3 10 0 0 0 0)
   \<and> \<not> isAfter (localDate 2024 3 10 0 0 0 0) (localDate 2024 3 31 0 0 0 0)
   \<and> expandRecurrence (sampleTask (localDate 2024 3 4 8 0 0 0) (Weekly 2 [1]))
         (localDate 2024 3 10 0 0 0 0) (localDate 2024 3 31 0 0 0 0)
       = Some ([\<lparr>date = localDate 2024 3 11 0 0 0 0, baseId = ''k3x9''\<rparr>,
                \<lparr>date = localDate 2024 3 25 0 0 0 0, baseId = ''k3x9''\<rparr>],
               sampleTask (localDate 2024 3 4 8 0 0 0) (Weekly 2 [1]))
   \<and> expandRecurrence (sampleTask (localDate 2024 3 4 8 0 0 0) (Weekly 2 [1]))
         (localDate 2024 3 1 0 0 0 0) (localDate 2024 3 31 0 0 0 0)
       = Some ([\<lparr>date = localDate 2024 3 4 0 0 0 0, baseId = ''k3x9''\<rparr>,
                \<lparr>date = localDate 2024 3 18 0 0 0 0, baseId = ''k3x9''\<rparr>],
               sampleTask (localDate 2024 3 4 8 0 0 0) (Weekly 2 [1]))
   \<and> \<lparr>date = localDate 2024 3 11 0 0 0 0, baseId = ''k3x9''\<rparr>
       \<notin> set [\<lparr>date = localDate 2024 3 4 0 0 0 0, baseId = ''k3x9''\<rparr>,
                \<lparr>date = localDate 2024 3 18 0 0 0 0, baseId = ''k3x9''\<rparr>]"
  by code_simp

text \<open>
  Claim C2 (no mutation of the task) at a weekly task whose weekdays are stored as
  \<open>[3, 1]\<close>. The loop sorts the array of the task in place: the task that the call
  leaves behind has the weekdays \<open>[1, 3]\<close>.
\<close>

theorem weekly_sorts_weekdays_in_place:
  "expandRecurrence (sampleTask (localDate 2024 3 4 8 0 0 0) (Weekly 1 [3, 1]))
     (localDate 2024 3 3 0 0 0 0) (localDate 2024 3 9 23 59 59 999)
   = Some ([\<lparr>date = localDate 2024 3 4 0 0 0 0, baseId = ''k3x9''\<rparr>,
            \<lparr>date = localDate 2024 3 6 0 0 0 0, baseId = ''k3x9''\<rparr>],
           sampleTask (localDate 2024 3 4 8 0 0 0) (Weekly 1 [1, 3]))
   \<and> sampleTask (localDate 2024 3 4 8 0 0 0) (Weekly 1 [1, 3])
       \<noteq> sampleTask (localDate 2024 3 4 8 0 0 0) (Weekly 1 [3, 1])"
  by code_simp

text \<open>
  Claim C3 (weekly time of day) at a weekly task due on Tuesday 2024-03-05 08:30 that
  recurs on Tuesdays and Thursdays. \<open>startOfWeek\<close> sets the week cursor to midnight, so
  both occurrences of the week are at 00:00, while the due date is at 08:30.
\<close>

theorem weekly_occurrences_at_midnight:
  "map_option
     (map (\<lambda>occ. (map_option getHours (date occ), map_option getMinutes (date occ))) \<circ> fst)
     (expandRecurrence (sampleTask (localDate 2024 3 5 8 30 0 0) (Weekly 1 [2, 4]))
        (localDate 2024 3 3 0 0 0 0) (localDate 2024 3 9 23 59 59 999))
   = Some [(Some 0, Some 0), (Some 0, Some 0)]
   \<and> (map_option getHours (dueDate (sampleTask (localDate 2024 3 5 8 30 0 0) (Weekly 1 [2, 4]))),
       map_option getMinutes (dueDate (sampleTask (localDate 2024 3 5 8 30 0 0) (Weekly 1 [2, 4]))))
       = (Some 8, Some 30)"
  by code_simp

text \<open>
  Claim C10 (occurrences before the anchor). There is a weekly task, due on a Wednesday
  and recurring on Mondays, and a window that starts no later than the week of the due
  date, for which the call returns an occurrence before the due date: the first week
  cursor is the Sunday that starts the week of the due date. The task is due on
  2024-03-06 08:30, the window runs from 2024-03-01 to 2024-03-10, and the occurrence is
  Monday 2024-03-04 00:00.
\<close>

theorem weekly_occurrence_before_anchor:
  "\<exists>task s e results task' occ due st.
      recurrence task = Weekly 1 [1]
      \<and> dueDate task = Some due \<and> getDay due = 3
      \<and> s = Some st \<and> st \<le> startOfWeek due
      \<and> expandRecurrence task s e = Some (results, task')
      \<and> occ \<in> set results
      \<and> isBefore (date occ) (dueDate task)"
proof -
  let ?due = "localTime 2024 3 6 8 30 0 0"
  let ?st = "localTime 2024 3 1 0 0 0 0"
  let ?t = "sampleTask (localDate 2024 3 6 8 30 0 0) (Weekly 1 [1])"
  let ?e = "localDate 2024 3 10 0 0 0 0"
  let ?o = "\<lparr>date = localDate 2024 3 4 0 0 0 0, baseId = ''k3x9''\<rparr>"
  have "recurrence ?t = Weekly 1 [1]" by (simp add: sampleTask_def)
  moreover have "dueDate ?t = Some ?due" by code_simp
  moreover have "getDay ?due = 3" by code_simp
  moreover have "localDate 2024 3 1 0 0 0 0 = Some ?st" by code_simp
  moreover have "?st \<le> startOfWeek ?due" by code_simp
  moreover have "expandRecurrence ?t (localDate 2024 3 1 0 0 0 0) ?e = Some ([?o], ?t)"
    by code_simp
  moreover have "?o \<in> set [?o]" by simp
  moreover have "isBefore (date ?o) (dueDate ?t)" by code_simp
  ultimately show ?thesis by blast
qed

text \<open>
  Claim C5 (ordering) at a monthly task due on 0099-12-15 00:00 with the well-formed
  recurrence \<open>monthly{interval: 22799, day: 20}\<close>, over the window from 0099-12-01 to
  2000-01-01. The first month cursor is the due date, in the year 99, and
  \<^verbatim>\<open>new Date(99, 11, 20, 0, 0)\<close> is 1999-12-20, inside the window. The second cursor,
  22799 months later, is 1999-11-15, and its occurrence is 1999-11-20. The call returns
  the later date first.
\<close>

theorem monthly_two_digit_year_unsorted:
  "wellFormed (Monthly 22799 20)
   \<and> map_option (map date \<circ> fst)
        (expandRecurrence (sampleTask (localDate 99 12 15 0 0 0 0) (Monthly 22799 20))
           (localDate 99 12 1 0 0 0 0) (localDate 2000 1 1 0 0 0 0))
       = Some [localDate 1999 12 20 0 0 0 0, localDate 1999 11 20 0 0 0 0]
   \<and> isAfter (localDate 1999 12 20 0 0 0 0) (localDate 1999 11 20 0 0 0 0)"
  by code_simp

text \<open>
  Claim C9 (termination) at a daily task with interval 200000000, which is at least 1.
  The task is due on 2024-01-15 09:00, before the window of February 2024. The first
  loop advances the cursor by 200000000 days, beyond the range of \<^verbatim>\<open>Date\<close>: the cursor
  is the Invalid Date. \<^verbatim>\<open>isAfter(d, end)\<close> is then false in every round of the second
  loop, which never exits. The call does not return.
\<close>

theorem daily_overflow_never_returns:
  "wellFormed (Daily 200000000)
   \<and> addDays (localDate 2024 1 15 9 0 0 0) 200000000 = None
   \<and> expandRecurrence (sampleTask (localDate 2024 1 15 9 0 0 0) (Daily 200000000))
        (localDate 2024 2 1 0 0 0 0) (localDate 2024 2 29 23 59 59 999) = None"
proof -
  have w: "wellFormed (Daily 200000000)" by (simp add: wellFormed_def)
  have a: "addDays (localDate 2024 1 15 9 0 0 0) 200000000 = None" by code_simp
  have s: "daily_skip (localDate 2024 1 15 9 0 0 0) (localDate 2024 2 1 0 0 0 0) 200000000
      = Some None" by code_simp
  show ?thesis using w a
    by (simp add: expandRecurrence_def sampleTask_def Let_def s daily_emit_invalid)
qed

text \<open>
  Claim C7 (degenerate window) at the same daily task and a window whose start,
  2024-03-01, is after its end, 2024-02-01. The cursor becomes the Invalid Date in the
  first loop, and the second loop never exits: the call does not return the empty
  sequence, it does not return.
\<close>

theorem empty_window_overflow_never_returns:
  "isAfter (localDate 2024 3 1 0 0 0 0) (localDate 2024 2 1 0 0 0 0)
   \<and> wellFormed (Daily 200000000)
   \<and> expandRecurrence (sampleTask (localDate 2024 1 15 9 0 0 0) (Daily 200000000))
        (localDate 2024 3 1 0 0 0 0) (localDate 2024 2 1 0 0 0 0) = None"
proof -
  have w: "wellFormed (Daily 200000000)" by (simp add: wellFormed_def)
  have a: "isAfter (localDate 2024 3 1 0 0 0 0) (localDate 2024 2 1 0 0 0 0)" by code_simp
  have s: "daily_skip (localDate 2024 1 15 9 0 0 0) (localDate 2024 3 1 0 0 0 0) 200000000
      = Some None" by code_simp
  show ?thesis using w a
    by (simp add: expandRecurrence_def sampleTask_def Let_def s daily_emit_invalid)
qed

end
